theory Spec2Isabelle
  imports Main "HOL-Library.Word" "HOL-Library.Char_ord" "HOL-Library.List_Lexorder"
    "HOL-Library.Product_Lexorder"
begin

section \<open>BuildEvents.h: the data model\<close>

text \<open>
  The header declares the event kinds, the two handle types, the event record, the
  indexed vector and the name table. Handles wrap a C++ \<open>int\<close>; no function of the
  sources does arithmetic on them, and the model keeps their values as HOL integers.
  Time stamps and durations are \<open>int64_t\<close> and are modelled as 64-bit words, read as
  two's complement by \<open>sint\<close>.
\<close>

datatype BuildEventType =
    kUnknown
  | kCompiler
  | kFrontend
  | kBackend
  | kParseFile
  | kParseTemplate
  | kParseClass
  | kInstantiateClass
  | kInstantiateFunction
  | kOptModule
  | kOptFunction

datatype DetailIndex = DetailIndex (idx: int)

datatype EventIndex = EventIndex (idx: int)

record BuildEvent =
  type :: BuildEventType
  ts :: "64 word"
  dur :: "64 word"
  detailIndex :: DetailIndex
  parent :: EventIndex
  children :: "EventIndex list"

text \<open>The member initialisers of \<open>struct BuildEvent\<close>, with \<open>DetailIndex()\<close> being index 0.\<close>

definition BuildEvent_init :: BuildEvent where
  "BuildEvent_init =
     \<lparr>type = kUnknown, ts = 0, dur = 0, detailIndex = DetailIndex 0,
      parent = EventIndex (- 1), children = []\<rparr>"

type_synonym BuildEvents = "BuildEvent list"

text \<open>
  \<open>IndexedVector::operator[]\<close> is \<open>this->begin()[pos.idx]\<close>: an unchecked offset from
  the first element. Inside the vector it yields the element; outside, C++ leaves the
  access undefined, and \<open>None\<close> marks exactly those accesses.
\<close>

definition IndexedVector_at :: "'a list \<Rightarrow> EventIndex \<Rightarrow> 'a option" where
  "IndexedVector_at v pos =
     (if 0 \<le> idx pos \<and> idx pos < int (length v) then Some (v ! nat (idx pos)) else None)"

text \<open>
  \<open>BuildNames\<close> is a \<open>boost::bimap<std::string, DetailIndex>\<close>: a collection of
  (string, handle) pairs in which every string and every handle occurs at most once.
  The pairs are kept in a list; \<open>bimap_insert\<close> refuses a pair that would repeat
  either side, as insertion into a bimap with two set views does.
\<close>

type_synonym BuildNames = "(string \<times> DetailIndex) list"

definition bimap_left_find :: "BuildNames \<Rightarrow> string \<Rightarrow> DetailIndex option" where
  "bimap_left_find nm s = map_of nm s"

definition bimap_right_find :: "BuildNames \<Rightarrow> DetailIndex \<Rightarrow> string option" where
  "bimap_right_find nm h = map_of (map (\<lambda>(s, h'). (h', s)) nm) h"

definition bimap_insert :: "string \<times> DetailIndex \<Rightarrow> BuildNames \<Rightarrow> BuildNames" where
  "bimap_insert p nm =
     (if fst p \<in> fst ` set nm \<or> snd p \<in> snd ` set nm then nm else nm @ [p])"

section \<open>main.cpp\<close>

subsection \<open>The environment of a run\<close>

text \<open>
  The functions of main.cpp read the clock, the session file, the directory tree and the
  trace files. What they read is collected in one record, so that a run is a function of
  it. \<open>time_t\<close> is 64 bits wide (the source asserts it) and only ever compared.
\<close>

type_synonym time_t = "64 word"

text \<open>
  A \<open>cf_file_t\<close> as \<open>OnFile\<close> uses it: the path, and what \<open>cf_get_ext\<close> returns for
  the entry (\<open>None\<close> for a null pointer).
\<close>

record cf_file =
  path :: string
  ext :: "string option"

record environment =
  now :: time_t
  session_file :: "string \<Rightarrow> time_t option"
  traverse :: "string \<Rightarrow> cf_file list"
  file_time :: "string \<Rightarrow> time_t option"
  file_text :: "string \<Rightarrow> string option"

text \<open>
  \<^item> \<open>now\<close>: the value of \<open>time(NULL)\<close>;
  \<^item> \<open>session_file p\<close>: the number \<open>fscanf\<close> leaves in \<open>startTime\<close> when \<open>p\<close> can be
    opened for reading, \<open>None\<close> when \<open>fopen\<close> fails;
  \<^item> \<open>traverse d\<close>: the entries \<open>cf_traverse\<close> hands to its callback under \<open>d\<close>, in the
    order the file system lists them;
  \<^item> \<open>file_time p\<close>: the modification time \<open>cf_get_file_time\<close> stores, \<open>None\<close> when it
    returns 0;
  \<^item> \<open>file_text p\<close>: the bytes of the file, \<open>None\<close> when \<open>fopen\<close> fails.
\<close>

text \<open>What the run prints, one constructor per \<open>printf\<close> of \<open>RunAnalyze\<close> and its callees.\<close>

datatype message =
    ErrAnalyzeRequiresFilename
  | Analyzing string
  | ErrOpenSessionFile string
  | ErrNoJsonFiles string
  | WarnCouldNotReadFile string
  | NoTraceEventsFound
  | DoneIn

subsection \<open>ReadFileToString\<close>

definition ReadFileToString :: "environment \<Rightarrow> string \<Rightarrow> string" where
  "ReadFileToString env p = (case file_text env p of None \<Rightarrow> [] | Some str \<Rightarrow> str)"

subsection \<open>CompareIgnoreNewlines\<close>

text \<open>
  The \<open>for\<close> loop with its two indices. Each round steps over at most one carriage
  return on either side, compares the two characters when both indices are still inside,
  and then advances both indices by one.
\<close>

function CompareIgnoreNewlines_loop :: "string \<Rightarrow> string \<Rightarrow> nat \<Rightarrow> nat \<Rightarrow> bool" where
  "CompareIgnoreNewlines_loop a b ia ib =
     (if ia < length a \<and> ib < length b then
        (let ia1 = (if a ! ia = CHR 0x0D then ia + 1 else ia);
             ib1 = (if b ! ib = CHR 0x0D then ib + 1 else ib)
         in if ia1 < length a \<and> ib1 < length b \<and> a ! ia1 \<noteq> b ! ib1 then False
            else CompareIgnoreNewlines_loop a b (ia1 + 1) (ib1 + 1))
      else \<not> (ia \<noteq> length a \<or> ib \<noteq> length b))"
  by pat_completeness auto
termination
  by (relation "measure (\<lambda>(a, b, ia, ib). length a - ia)") (auto simp: Let_def)

declare CompareIgnoreNewlines_loop.simps [simp del]

definition CompareIgnoreNewlines :: "string \<Rightarrow> string \<Rightarrow> bool" where
  "CompareIgnoreNewlines a b = CompareIgnoreNewlines_loop a b 0 0"

text \<open>The string with every carriage return deleted.\<close>

definition delete_cr :: "string \<Rightarrow> string" where
  "delete_cr s = filter (\<lambda>c. c \<noteq> CHR 0x0D) s"

subsection \<open>JsonFileFinder\<close>

text \<open>\<open>std::set<std::string>\<close> is a set of strings, iterated in ascending order.\<close>

record JsonFileFinder =
  startTime :: time_t
  endTime :: time_t
  files :: "string set"

text \<open>\<open>std::replace(first, last, old, new)\<close> on a string.\<close>

definition std_replace :: "char \<Rightarrow> char \<Rightarrow> string \<Rightarrow> string" where
  "std_replace old new s = map (\<lambda>c. if c = old then new else c) s"

text \<open>
  \<open>OnFile\<close>, with the branch of the preprocessor that is taken outside MSVC
  (\<open>fileModTime = mtime.time\<close>). Comparisons of \<open>time_t\<close> are signed.
\<close>

definition OnFile :: "environment \<Rightarrow> cf_file \<Rightarrow> JsonFileFinder \<Rightarrow> JsonFileFinder" where
  "OnFile env f self =
     (case ext f of
        None \<Rightarrow> self
      | Some e \<Rightarrow>
          if e \<noteq> ''.json'' then self
          else
            (case file_time env (path f) of
               None \<Rightarrow> self
             | Some fileModTime \<Rightarrow>
                 if sint fileModTime < sint (startTime self) \<or> sint fileModTime > sint (endTime self)
                 then self
                 else self\<lparr>files := insert (std_replace (CHR 0x5C) CHR ''/'' (path f)) (files self)\<rparr>))"

text \<open>\<open>cf_traverse\<close> with \<open>JsonFileFinder::Callback\<close>: \<open>OnFile\<close> on every entry, in order.\<close>

definition cf_traverse :: "environment \<Rightarrow> string \<Rightarrow> JsonFileFinder \<Rightarrow> JsonFileFinder" where
  "cf_traverse env dir self = fold (OnFile env) (traverse env dir) self"

subsection \<open>ReadSessionFile\<close>

definition ReadSessionFile :: "environment \<Rightarrow> string \<Rightarrow> message list \<times> time_t option" where
  "ReadSessionFile env root =
     (let fname = root @ ''/ClangBuildAnalyzerSession.txt''
      in case session_file env fname of
           None \<Rightarrow> ([ErrOpenSessionFile fname], None)
         | Some start \<Rightarrow> ([], Some start))"

subsection \<open>RunAnalyze\<close>

text \<open>
  \<open>strstr(str.c_str(), clangMarker)\<close> searches the C string, which ends at the first
  NUL byte of the file's text.
\<close>

definition c_str :: "string \<Rightarrow> string" where
  "c_str s = takeWhile (\<lambda>c. c \<noteq> CHR 0x00) s"

fun is_prefix :: "string \<Rightarrow> string \<Rightarrow> bool" where
  "is_prefix [] hay = True"
| "is_prefix (n # ns) [] = False"
| "is_prefix (n # ns) (h # hs) = (n = h \<and> is_prefix ns hs)"

text \<open>\<open>strstr hay needle \<noteq> NULL\<close>: the needle occurs at some position of the haystack.\<close>

fun strstr :: "string \<Rightarrow> string \<Rightarrow> bool" where
  "strstr [] needle = is_prefix needle []"
| "strstr (h # hs) needle = (is_prefix needle (h # hs) \<or> strstr hs needle)"

definition clangMarker :: string where
  \<open>clangMarker = ''{"cat":"","pid":1,"tid":0,"ts":0,"ph":"M","name":"process_name","args":{"name":"clang"}}''\<close>

text \<open>
  \<open>ParseBuildEvents\<close> and \<open>DoAnalysis\<close> are declared in headers and defined in files
  that are not part of the sources at hand. \<open>RunAnalyze\<close> takes both as parameters: the
  parser maps the file name, the text and the two shared structures to the structures
  after the call; the analysis maps the structures to whatever it writes to \<open>out\<close>.
\<close>

type_synonym parser = "string \<Rightarrow> string \<Rightarrow> BuildEvents \<Rightarrow> BuildNames \<Rightarrow> BuildEvents \<times> BuildNames"

record analyze_state =
  events :: BuildEvents
  names :: BuildNames
  printed :: "message list"

text \<open>The body of the loop over \<open>jsonFiles.files\<close>.\<close>

definition analyze_file :: "environment \<Rightarrow> parser \<Rightarrow> string \<Rightarrow> analyze_state \<Rightarrow> analyze_state" where
  "analyze_file env ParseBuildEvents file st =
     (let str = ReadFileToString env file
      in if str = [] then st\<lparr>printed := printed st @ [WarnCouldNotReadFile file]\<rparr>
         else if \<not> strstr (c_str str) clangMarker then st
         else
           (case ParseBuildEvents file str (events st) (names st) of
              (evs, nms) \<Rightarrow>
                if evs = []
                then \<lparr>events = evs, names = nms, printed = printed st @ [NoTraceEventsFound]\<rparr>
                else \<lparr>events = evs, names = nms, printed = printed st\<rparr>))"

definition analyze_files :: "environment \<Rightarrow> parser \<Rightarrow> string list \<Rightarrow> analyze_state \<Rightarrow> analyze_state" where
  "analyze_files env ParseBuildEvents fs st = fold (analyze_file env ParseBuildEvents) fs st"

record 'r run_result =
  exit_code :: int
  console :: "message list"
  analysis :: "'r option"

text \<open>
  \<open>RunAnalyze\<close>: \<open>argv\<close> is the argument vector (\<open>argc\<close> is its length). The result is the
  returned status, what was printed, and what \<open>DoAnalysis\<close> produced when it was called.
\<close>

definition RunAnalyze ::
  "environment \<Rightarrow> parser \<Rightarrow> (BuildEvents \<Rightarrow> BuildNames \<Rightarrow> 'r) \<Rightarrow> string list \<Rightarrow> 'r run_result" where
  "RunAnalyze env ParseBuildEvents DoAnalysis argv =
     (if length argv < 3
      then \<lparr>exit_code = 1, console = [ErrAnalyzeRequiresFilename], analysis = None\<rparr>
      else
        (let inFile = argv ! 2
         in case ReadSessionFile env inFile of
              (errs, None) \<Rightarrow>
                \<lparr>exit_code = 1, console = Analyzing inFile # errs, analysis = None\<rparr>
            | (errs, Some session) \<Rightarrow>
                (let jsonFiles =
                       cf_traverse env inFile
                         \<lparr>startTime = session, endTime = now env, files = {}\<rparr>
                 in if files jsonFiles = {}
                    then \<lparr>exit_code = 1, console = Analyzing inFile # errs @ [ErrNoJsonFiles inFile],
                          analysis = None\<rparr>
                    else
                      (let st = analyze_files env ParseBuildEvents
                                  (sorted_list_of_set (files jsonFiles))
                                  \<lparr>events = [], names = [], printed = Analyzing inFile # errs\<rparr>
                       in \<lparr>exit_code = 0, console = printed st @ [DoneIn],
                           analysis = Some (DoAnalysis (events st) (names st))\<rparr>))))"

section \<open>The parts outside the sources, modelled from the specification\<close>

text \<open>
  BuildEvents.cpp and Analysis.cpp are not among the sources. The name interner, the tree
  reconstruction of the parser and the grouped totals of the aggregator are therefore
  written down from the specification's sections 4.1 to 4.4, over the data model of the
  header.
\<close>

subsection \<open>Name interner\<close>

text \<open>
  Modelled from the spec: the function \<open>intern\<close> of the name interner, whose code is in
  the missing BuildEvents.cpp. It "returns the existing handle if the string was seen
  before, otherwise allocates and returns a new one"; handles are "densely packed", so
  the new handle is the number of names interned so far.
\<close>

definition intern :: "string \<Rightarrow> BuildNames \<Rightarrow> DetailIndex \<times> BuildNames" where
  "intern s nm =
     (case bimap_left_find nm s of
        Some h \<Rightarrow> (h, nm)
      | None \<Rightarrow> (let h = DetailIndex (int (length nm)) in (h, bimap_insert (s, h) nm)))"

text \<open>
  Modelled from the spec: the function \<open>resolve\<close> of the name interner (missing
  BuildEvents.cpp), the lookup through the right view of the bimap.
\<close>

definition resolve :: "BuildNames \<Rightarrow> DetailIndex \<Rightarrow> string option" where
  "resolve nm h = bimap_right_find nm h"

text \<open>
  A run of the interner: the strings are interned one after the other; the result is the
  handle returned for each string, and the table at the end.
\<close>

fun intern_all :: "string list \<Rightarrow> BuildNames \<Rightarrow> DetailIndex list \<times> BuildNames" where
  "intern_all [] nm = ([], nm)"
| "intern_all (s # ss) nm =
     (case intern s nm of
        (h, nm') \<Rightarrow> (case intern_all ss nm' of (hs, nm'') \<Rightarrow> (h # hs, nm'')))"

subsection \<open>Event store and trace parser\<close>

text \<open>
  Modelled from the spec: \<open>append\<close> of the event store (section 4.2; no function of the
  sources appends to the store). It "appends one fully-formed record and returns its
  handle"; handles are "assigned in the order events are committed to the store".
\<close>

definition append_event :: "BuildEvent \<Rightarrow> BuildEvents \<Rightarrow> EventIndex \<times> BuildEvents" where
  "append_event e evs = (EventIndex (int (length evs)), evs @ [e])"

text \<open>
  One record of the flat list a trace document holds, after decoding: the kind its
  category and name map to, start, duration, and the \<open>name\<close> argument when present.
\<close>

record TraceRecord =
  rec_kind :: BuildEventType
  rec_ts :: "64 word"
  rec_dur :: "64 word"
  rec_name :: "string option"

text \<open>
  Modelled from the spec: interval containment, "the structural definition of nesting"
  (section 3): the interval \<open>[start, start + duration]\<close> of \<open>c\<close> lies inside that of \<open>p\<close>.
  The sums are 64-bit sums, compared as signed numbers.
\<close>

definition interval_contains :: "BuildEvent \<Rightarrow> BuildEvent \<Rightarrow> bool" where
  "interval_contains p c =
     (sint (ts p) \<le> sint (ts c) \<and> sint (ts c + dur c) \<le> sint (ts p + dur p))"

text \<open>
  Modelled from the spec: the tree reconstruction of section 4.3, step 3, whose code is
  in the missing BuildEvents.cpp. The stack holds the handles of the open events, top
  first. "When a new event's interval is not contained in the interval at the top of the
  stack, pop until it is (or the stack is empty)".
\<close>

fun pop_until_contained :: "BuildEvents \<Rightarrow> BuildEvent \<Rightarrow> EventIndex list \<Rightarrow> EventIndex list" where
  "pop_until_contained evs e [] = []"
| "pop_until_contained evs e (t # stack) =
     (case IndexedVector_at evs t of
        Some p \<Rightarrow> if interval_contains p e then t # stack else pop_until_contained evs e stack
      | None \<Rightarrow> pop_until_contained evs e stack)"

text \<open>The parser enters the new handle in the \<open>children\<close> of the parent.\<close>

definition add_child :: "EventIndex \<Rightarrow> EventIndex \<Rightarrow> BuildEvents \<Rightarrow> BuildEvents" where
  "add_child par h evs =
     (case IndexedVector_at evs par of
        None \<Rightarrow> evs
      | Some p \<Rightarrow> evs[nat (idx par) := p\<lparr>children := children p @ [h]\<rparr>])"

text \<open>
  Modelled from the spec: one step of the parser (section 4.3, steps 3 and 4). An event
  that carries a name gets the handle \<open>intern\<close> returns, any other keeps the handle of
  the member initialiser. After the pops the event is pushed "as a child of whatever is
  now on top (or as a new root if the stack is empty)".
\<close>

definition add_record ::
  "TraceRecord \<Rightarrow> BuildEvents \<times> BuildNames \<times> EventIndex list \<Rightarrow>
     BuildEvents \<times> BuildNames \<times> EventIndex list" where
  "add_record r st =
     (case st of
        (evs, nms, stack) \<Rightarrow>
          (case (case rec_name r of
                   None \<Rightarrow> (detailIndex BuildEvent_init, nms)
                 | Some s \<Rightarrow> intern s nms) of
             (d, nms') \<Rightarrow>
               (let e = BuildEvent_init\<lparr>type := rec_kind r, ts := rec_ts r, dur := rec_dur r,
                                        detailIndex := d\<rparr>;
                    stack' = pop_until_contained evs e stack;
                    par = (case stack' of [] \<Rightarrow> EventIndex (- 1) | t # _ \<Rightarrow> t)
                in case append_event (e\<lparr>parent := par\<rparr>) evs of
                     (h, evs') \<Rightarrow> (add_child par h evs', nms', h # stack'))))"

text \<open>
  Modelled from the spec: the tie-break rule of section 4.3, step 3 (missing
  BuildEvents.cpp). The records of a document come in the order of their start times;
  "if two sibling intervals have identical start times, the one with strictly larger
  duration is treated as the ancestor". So the records are taken by ascending start and,
  for equal starts, by descending duration; records that agree in both keep their order.
\<close>

definition order_records :: "TraceRecord list \<Rightarrow> TraceRecord list" where
  "order_records recs = sort_key (\<lambda>r. (sint (rec_ts r), - sint (rec_dur r))) recs"

text \<open>
  Modelled from the spec: the parser on the decoded records of one document (missing
  BuildEvents.cpp). It appends to the two shared structures; the stack of open events
  starts empty for every document.
\<close>

definition ParseBuildEvents_records ::
  "TraceRecord list \<Rightarrow> BuildEvents \<Rightarrow> BuildNames \<Rightarrow> BuildEvents \<times> BuildNames" where
  "ParseBuildEvents_records recs evs nms =
     (case fold add_record (order_records recs) (evs, nms, []) of
        (evs', nms', stack) \<Rightarrow> (evs', nms'))"

text \<open>
  Modelled from the spec: \<open>ParseBuildEvents\<close> as \<open>RunAnalyze\<close> calls it. The reader of the
  JSON text is a parameter \<open>decode\<close>, from the text to its flat list of records.
\<close>

definition ParseBuildEvents_model :: "(string \<Rightarrow> TraceRecord list) \<Rightarrow> parser" where
  "ParseBuildEvents_model decode fileName jsonText evs nms =
     ParseBuildEvents_records (decode jsonText) evs nms"

text \<open>
  The containment invariant of the event store: every event whose parent is not the
  sentinel \<open>-1\<close> has its parent in the store, and the parent's interval contains its own.
\<close>

definition containment_invariant :: "BuildEvents \<Rightarrow> bool" where
  "containment_invariant evs =
     (\<forall>e \<in> set evs.
        parent e \<noteq> EventIndex (- 1) \<longrightarrow>
          (\<exists>p. IndexedVector_at evs (parent e) = Some p \<and>
               sint (ts p) \<le> sint (ts e) \<and>
               sint (ts e + dur e) \<le> sint (ts p + dur p)))"

subsection \<open>Aggregator\<close>

text \<open>
  Modelled from the spec: the per-kind-and-name totals of the aggregator (section 4.4;
  the code is in the missing Analysis.cpp): "a single pass over all events, accumulating
  into a handle-keyed running-total map" the sum of the durations and the number of
  occurrences of every pair of kind and detail handle.
\<close>

type_synonym totals = "BuildEventType \<times> DetailIndex \<rightharpoonup> 64 word \<times> nat"

definition add_to_totals :: "BuildEvent \<Rightarrow> totals \<Rightarrow> totals" where
  "add_to_totals e m =
     (case m (type e, detailIndex e) of
        None \<Rightarrow> m((type e, detailIndex e) \<mapsto> (dur e, 1))
      | Some (acc, n) \<Rightarrow> m((type e, detailIndex e) \<mapsto> (acc + dur e, n + 1)))"

definition aggregate :: "BuildEvents \<Rightarrow> totals" where
  "aggregate evs = fold add_to_totals evs Map.empty"

section \<open>Example inputs\<close>

text \<open>
  A build directory with two trace files. Both hold the producer marker; the event list
  of \<open>build/a.json\<close> has two nested events, that of \<open>build/b.json\<close> is empty. The
  decoder stands for the JSON reader on these texts: it knows the first and yields no
  record for any other text.
\<close>

definition trace_nested :: string where
  \<open>trace_nested =
     ''{"traceEvents":[{"ph":"X","name":"Frontend","ts":0,"dur":100},'' @
     ''{"ph":"X","name":"InstantiateFunction","ts":10,"dur":20,"args":{"name":"foo"}}],'' @
     ''"otherData":'' @ clangMarker @ ''}''\<close>

definition trace_empty :: string where
  \<open>trace_empty = ''{"traceEvents":[],"otherData":'' @ clangMarker @ ''}''\<close>

definition example_decode :: "string \<Rightarrow> TraceRecord list" where
  "example_decode txt =
     (if txt = trace_nested then
        [\<lparr>rec_kind = kFrontend, rec_ts = 0, rec_dur = 100, rec_name = None\<rparr>,
         \<lparr>rec_kind = kInstantiateFunction, rec_ts = 10, rec_dur = 20, rec_name = Some ''foo''\<rparr>]
      else [])"

definition example_entries :: "cf_file list" where
  "example_entries =
     [\<lparr>path = ''build/a.json'', ext = Some ''.json''\<rparr>,
      \<lparr>path = ''build/b.json'', ext = Some ''.json''\<rparr>]"

definition example_env :: environment where
  "example_env =
     \<lparr>now = 2000,
      session_file = (\<lambda>p. if p = ''build/ClangBuildAnalyzerSession.txt'' then Some 1000 else None),
      traverse = (\<lambda>d. if d = ''build'' then example_entries else []),
      file_time = (\<lambda>p. Some 1500),
      file_text = map_of [(''build/a.json'', trace_nested), (''build/b.json'', trace_empty)]\<rparr>"

definition example_argv :: "string list" where
  "example_argv = [''ClangBuildAnalyzer'', ''--analyze'', ''build'']"

text \<open>An analysis that hands back the two structures it is called on.\<close>

definition example_analysis :: "BuildEvents \<Rightarrow> BuildNames \<Rightarrow> BuildEvents \<times> BuildNames" where
  "example_analysis evs nms = (evs, nms)"

text \<open>The same directory when neither file holds the producer marker.\<close>

definition skipped_env :: environment where
  "skipped_env = example_env\<lparr>file_text := (\<lambda>p. Some ''{}'')\<rparr>"

section \<open>Auxiliary predicates\<close>

text \<open>
  The well-formedness of a name table built by \<open>intern\<close>: no string occurs twice, and
  the handles are the numbers from 0 in the order of allocation.
\<close>

definition names_ok :: "BuildNames \<Rightarrow> bool" where
  "names_ok nm =
     (distinct (map fst nm) \<and> map snd nm = map (\<lambda>i. DetailIndex (int i)) [0..<length nm])"

text \<open>
  Strings in which every carriage return is followed by a character that is not a
  carriage return, as in a text with CR LF line ends.
\<close>

definition cr_followed :: "string \<Rightarrow> bool" where
  "cr_followed s = (\<forall>i<length s. s ! i = CHR 0x0D \<longrightarrow> Suc i < length s \<and> s ! Suc i \<noteq> CHR 0x0D)"

text \<open>The three conditions under which \<open>OnFile\<close> takes an entry.\<close>

definition accepts :: "environment \<Rightarrow> JsonFileFinder \<Rightarrow> cf_file \<Rightarrow> bool" where
  "accepts env self f =
     (ext f = Some ''.json'' \<and>
      (\<exists>t. file_time env (path f) = Some t \<and>
           sint (startTime self) \<le> sint t \<and> sint t \<le> sint (endTime self)))"

section \<open>The event store and the name table\<close>

lemma IndexedVector_at_append:
  "IndexedVector_at (v @ [x]) (EventIndex (int (length v))) = Some x"
  by (simp add: IndexedVector_at_def)

text \<open>
  The handle \<open>append_event\<close> returns indexes the record that was appended: the part of
  the store's contract that does not depend on what an access outside the vector does.
\<close>

lemma append_event_then_index:
  "append_event e evs = (h, evs') \<Longrightarrow> IndexedVector_at evs' h = Some e"
  by (auto simp: append_event_def IndexedVector_at_def)

subsection \<open>Interning\<close>

lemma names_ok_Nil: "names_ok []"
  by (simp add: names_ok_def)

lemma names_ok_distinct_snd:
  assumes "names_ok nm"
  shows "distinct (map snd nm)"
proof -
  have "inj_on (\<lambda>i. DetailIndex (int i)) (set [0..<length nm])"
    by (rule inj_onI) simp
  then have "distinct (map (\<lambda>i. DetailIndex (int i)) [0..<length nm])"
    by (simp add: distinct_map)
  with assms show ?thesis
    by (simp add: names_ok_def)
qed

lemma names_ok_fresh:
  assumes "names_ok nm"
  shows "DetailIndex (int (length nm)) \<notin> snd ` set nm"
proof -
  have "snd ` set nm = set (map snd nm)"
    by simp
  also have "\<dots> = (\<lambda>i. DetailIndex (int i)) ` {0..<length nm}"
    using assms by (simp add: names_ok_def)
  finally show ?thesis
    by auto
qed

lemma left_find_iff:
  "names_ok nm \<Longrightarrow> bimap_left_find nm s = Some h \<longleftrightarrow> (s, h) \<in> set nm"
  by (simp add: names_ok_def bimap_left_find_def)

lemma right_find_iff:
  assumes "names_ok nm"
  shows "bimap_right_find nm h = Some s \<longleftrightarrow> (s, h) \<in> set nm"
proof -
  have eq: "map fst (map (\<lambda>(s, h'). (h', s)) nm) = map snd nm"
    by (induction nm) auto
  have "distinct (map fst (map (\<lambda>(s, h'). (h', s)) nm))"
    unfolding eq by (rule names_ok_distinct_snd [OF assms])
  then have "map_of (map (\<lambda>(s, h'). (h', s)) nm) h = Some s \<longleftrightarrow>
             (h, s) \<in> set (map (\<lambda>(s, h'). (h', s)) nm)"
    by (rule map_of_eq_Some_iff)
  also have "\<dots> \<longleftrightarrow> (s, h) \<in> set nm"
    by auto
  finally show ?thesis
    by (simp add: bimap_right_find_def)
qed

lemma intern_found:
  "bimap_left_find nm s = Some h \<Longrightarrow> intern s nm = (h, nm)"
  by (simp add: intern_def)

lemma intern_new:
  assumes "names_ok nm" and "bimap_left_find nm s = None"
  shows "intern s nm = (DetailIndex (int (length nm)), nm @ [(s, DetailIndex (int (length nm)))])"
proof -
  from assms(2) have "s \<notin> fst ` set nm"
    by (simp add: bimap_left_find_def map_of_eq_None_iff)
  with names_ok_fresh [OF assms(1)] assms(2) show ?thesis
    by (simp add: intern_def bimap_insert_def Let_def)
qed

lemma names_ok_intern:
  assumes "names_ok nm"
  shows "names_ok (snd (intern s nm))"
proof (cases "bimap_left_find nm s")
  case None
  then have "s \<notin> fst ` set nm"
    by (simp add: bimap_left_find_def map_of_eq_None_iff)
  with assms show ?thesis
    by (simp add: intern_new [OF assms None] names_ok_def)
next
  case (Some h)
  with assms show ?thesis
    by (simp add: intern_found)
qed

lemma intern_keeps:
  assumes "names_ok nm" and "(t, k) \<in> set nm"
  shows "(t, k) \<in> set (snd (intern s nm))"
proof (cases "bimap_left_find nm s")
  case None
  with assms show ?thesis
    by (simp add: intern_new)
next
  case (Some h)
  with assms show ?thesis
    by (simp add: intern_found)
qed

lemma intern_enters:
  assumes "names_ok nm"
  shows "(s, fst (intern s nm)) \<in> set (snd (intern s nm))"
proof (cases "bimap_left_find nm s")
  case None
  with assms show ?thesis
    by (simp add: intern_new)
next
  case (Some h)
  with assms show ?thesis
    by (simp add: intern_found left_find_iff)
qed

lemma intern_strings:
  assumes "names_ok nm"
  shows "fst ` set (snd (intern s nm)) = insert s (fst ` set nm)"
proof (cases "bimap_left_find nm s")
  case None
  with assms show ?thesis
    by (simp add: intern_new)
next
  case (Some h)
  then have "(s, h) \<in> set nm"
    using assms by (simp add: left_find_iff)
  then have "s \<in> fst ` set nm"
    by force
  with Some show ?thesis
    by (auto simp: intern_found)
qed

lemma intern_all_run:
  assumes "names_ok nm0" and "intern_all ss nm0 = (hs, nm)"
  shows "names_ok nm \<and> length hs = length ss \<and> set nm0 \<subseteq> set nm \<and>
         (\<forall>i<length ss. (ss ! i, hs ! i) \<in> set nm) \<and>
         fst ` set nm = fst ` set nm0 \<union> set ss"
  using assms
proof (induction ss arbitrary: nm0 hs nm)
  case Nil
  then show ?case by simp
next
  case (Cons s ss)
  obtain h nm1 where i: "intern s nm0 = (h, nm1)"
    by (cases "intern s nm0")
  obtain hs' nm2 where r: "intern_all ss nm1 = (hs', nm2)"
    by (cases "intern_all ss nm1")
  from Cons.prems(2) i r have hs: "hs = h # hs'" and nm: "nm = nm2"
    by simp_all
  have ok1: "names_ok nm1"
    using names_ok_intern [OF Cons.prems(1), of s] i by simp
  have sub1: "set nm0 \<subseteq> set nm1"
    using intern_keeps [OF Cons.prems(1), of _ _ s] i by auto
  have in1: "(s, h) \<in> set nm1"
    using intern_enters [OF Cons.prems(1), of s] i by simp
  have str1: "fst ` set nm1 = insert s (fst ` set nm0)"
    using intern_strings [OF Cons.prems(1), of s] i by simp
  from Cons.IH [OF ok1 r]
  have ih: "names_ok nm2" "length hs' = length ss" "set nm1 \<subseteq> set nm2"
    "\<forall>i<length ss. (ss ! i, hs' ! i) \<in> set nm2"
    "fst ` set nm2 = fst ` set nm1 \<union> set ss"
    by simp_all
  have "\<forall>i<length (s # ss). ((s # ss) ! i, hs ! i) \<in> set nm"
  proof (intro allI impI)
    fix i assume "i < length (s # ss)"
    then show "((s # ss) ! i, hs ! i) \<in> set nm"
      using in1 ih(3,4) by (cases i) (auto simp: hs nm)
  qed
  moreover have "fst ` set nm = fst ` set nm0 \<union> set (s # ss)"
    using ih(5) str1 by (auto simp: nm)
  ultimately show ?case
    using ih(1,2,3) sub1 by (simp add: hs nm)
qed

text \<open>
  Claim C1 (interning bijection). Let the strings \<open>ss\<close> be interned one after the other
  into an empty table, \<open>hs\<close> being the handles returned and \<open>nm\<close> the table at the end.
  Then every handle resolves to the string it was returned for; two calls return the
  same handle exactly when they were given the same string, so the same string gets the
  same handle and distinct strings get distinct handles; interning a string again
  returns its handle; and the table is a bijection between the strings interned and the
  handles allocated: it relates \<open>s\<close> to \<open>h\<close> from the left exactly when it does from the
  right, its strings are those of \<open>ss\<close> and its handles those of \<open>hs\<close>.
\<close>

theorem interning_bijection:
  assumes "intern_all ss [] = (hs, nm)"
  shows "length hs = length ss \<and>
         (\<forall>i<length ss. resolve nm (hs ! i) = Some (ss ! i)) \<and>
         (\<forall>i<length ss. \<forall>j<length ss. (hs ! i = hs ! j) = (ss ! i = ss ! j)) \<and>
         (\<forall>i<length ss. fst (intern (ss ! i) nm) = hs ! i) \<and>
         (\<forall>s h. (bimap_left_find nm s = Some h) = (resolve nm h = Some s)) \<and>
         fst ` set nm = set ss \<and> snd ` set nm = set hs"
proof -
  from intern_all_run [OF names_ok_Nil assms]
  have ok: "names_ok nm" and len: "length hs = length ss"
    and mem: "\<forall>i<length ss. (ss ! i, hs ! i) \<in> set nm"
    and str: "fst ` set nm = set ss"
    by simp_all
  have bij: "(bimap_left_find nm s = Some h) = (resolve nm h = Some s)" for s h
    by (simp add: resolve_def left_find_iff [OF ok] right_find_iff [OF ok])
  have res: "resolve nm (hs ! i) = Some (ss ! i)" if "i < length ss" for i
    using mem that by (simp add: resolve_def right_find_iff [OF ok])
  have lft: "bimap_left_find nm (ss ! i) = Some (hs ! i)" if "i < length ss" for i
    using mem that by (simp add: left_find_iff [OF ok])
  have same: "(hs ! i = hs ! j) = (ss ! i = ss ! j)" if "i < length ss" "j < length ss" for i j
  proof
    assume "hs ! i = hs ! j"
    with res [OF that(1)] res [OF that(2)] show "ss ! i = ss ! j"
      by simp
  next
    assume "ss ! i = ss ! j"
    with lft [OF that(1)] lft [OF that(2)] show "hs ! i = hs ! j"
      by simp
  qed
  have again: "fst (intern (ss ! i) nm) = hs ! i" if "i < length ss" for i
    by (simp add: intern_found [OF lft [OF that]])
  have handles: "snd ` set nm = set hs"
  proof
    show "snd ` set nm \<subseteq> set hs"
    proof
      fix h assume "h \<in> snd ` set nm"
      then obtain s where sh: "(s, h) \<in> set nm"
        by force
      then have "s \<in> set ss"
        using str by force
      then obtain i where i: "i < length ss" "ss ! i = s"
        by (auto simp: in_set_conv_nth)
      from sh have "bimap_left_find nm s = Some h"
        by (simp add: left_find_iff [OF ok])
      with lft [OF i(1)] i(2) have "hs ! i = h"
        by simp
      with i(1) len show "h \<in> set hs"
        by (auto simp: in_set_conv_nth)
    qed
    show "set hs \<subseteq> snd ` set nm"
    proof
      fix h assume "h \<in> set hs"
      then obtain i where i: "i < length hs" "hs ! i = h"
        by (auto simp: in_set_conv_nth)
      with mem len have "(ss ! i, h) \<in> set nm"
        by auto
      then show "h \<in> snd ` set nm"
        by force
    qed
  qed
  from len res same again bij str handles show ?thesis
    by blast
qed

theorem interning_bijection_witness:
  "intern_all [''foo'', ''bar'', ''foo''] [] =
     ([DetailIndex 0, DetailIndex 1, DetailIndex 0], [(''foo'', DetailIndex 0), (''bar'', DetailIndex 1)]) \<and>
   resolve [(''foo'', DetailIndex 0), (''bar'', DetailIndex 1)] (DetailIndex 1) = Some ''bar'' \<and>
   DetailIndex 0 \<noteq> DetailIndex 1"
proof -
  have run: "intern_all [''foo'', ''bar'', ''foo''] [] =
     ([DetailIndex 0, DetailIndex 1, DetailIndex 0], [(''foo'', DetailIndex 0), (''bar'', DetailIndex 1)])"
    by (simp add: intern_def bimap_left_find_def bimap_insert_def Let_def)
  note all = interning_bijection [OF run, THEN conjunct2, THEN conjunct1, rule_format, of 1]
  note inj = interning_bijection [OF run, THEN conjunct2, THEN conjunct2, THEN conjunct1,
      rule_format, of 0 1]
  from run all inj show ?thesis
    by simp
qed

subsection \<open>Containment\<close>

text \<open>A sum of two \<open>int64_t\<close> that stays in range is the exact sum.\<close>

lemma sint_add_in_range:
  fixes a b :: "64 word"
  assumes "- (2 ^ 63) \<le> sint a + sint b" and "sint a + sint b < 2 ^ 63"
  shows "sint (a + b) = sint a + sint b"
  using assms by (simp add: sint_word_add signed_take_bit_int_eq_self)

lemma IndexedVector_at_Some:
  "IndexedVector_at v pos = Some x \<longleftrightarrow>
     0 \<le> idx pos \<and> idx pos < int (length v) \<and> v ! nat (idx pos) = x"
  by (auto simp: IndexedVector_at_def)

lemma IndexedVector_at_extend:
  "IndexedVector_at v pos = Some x \<Longrightarrow> IndexedVector_at (v @ w) pos = Some x"
  by (auto simp: IndexedVector_at_def nth_append split: if_splits)

lemma pop_until_contained_top:
  "pop_until_contained evs e stack = t # rest \<Longrightarrow>
     \<exists>p. IndexedVector_at evs t = Some p \<and> interval_contains p e"
  by (induction stack) (auto split: option.splits if_splits)

text \<open>The invariant only looks at the times and the parent of each event.\<close>

lemma containment_invariant_nth:
  "containment_invariant evs \<longleftrightarrow>
     (\<forall>i<length evs. parent (evs ! i) \<noteq> EventIndex (- 1) \<longrightarrow>
        0 \<le> idx (parent (evs ! i)) \<and> idx (parent (evs ! i)) < int (length evs) \<and>
        sint (ts (evs ! nat (idx (parent (evs ! i))))) \<le> sint (ts (evs ! i)) \<and>
        sint (ts (evs ! i) + dur (evs ! i)) \<le>
          sint (ts (evs ! nat (idx (parent (evs ! i)))) + dur (evs ! nat (idx (parent (evs ! i))))))"
  unfolding containment_invariant_def IndexedVector_at_Some all_set_conv_all_nth
  by auto

lemma add_child_length [simp]: "length (add_child par h evs) = length evs"
  by (simp add: add_child_def split: option.splits)

lemma add_child_nth:
  assumes "i < length evs"
  shows "ts (add_child par h evs ! i) = ts (evs ! i) \<and>
         dur (add_child par h evs ! i) = dur (evs ! i) \<and>
         parent (add_child par h evs ! i) = parent (evs ! i)"
proof (cases "IndexedVector_at evs par")
  case None
  then show ?thesis by (simp add: add_child_def)
next
  case (Some p)
  then have p: "evs ! nat (idx par) = p"
    by (simp add: IndexedVector_at_Some)
  show ?thesis
    using assms by (cases "i = nat (idx par)") (auto simp: add_child_def Some p)
qed

lemma containment_invariant_add_child:
  "containment_invariant (add_child par h evs) = containment_invariant evs"
proof -
  have n: "nat (idx q) < length evs" if "0 \<le> idx q" "idx q < int (length evs)" for q
    using that by linarith
  show ?thesis
    unfolding containment_invariant_nth add_child_length
    by (intro all_cong imp_cong refl conj_cong) (simp_all add: add_child_nth n)
qed

lemma containment_invariant_append:
  assumes inv: "containment_invariant evs"
    and par: "par = EventIndex (- 1) \<or>
              (\<exists>p. IndexedVector_at evs par = Some p \<and> interval_contains p e)"
  shows "containment_invariant (evs @ [e\<lparr>parent := par\<rparr>])"
  unfolding containment_invariant_def
proof (intro ballI impI)
  fix x
  assume x: "x \<in> set (evs @ [e\<lparr>parent := par\<rparr>])" and root: "parent x \<noteq> EventIndex (- 1)"
  show "\<exists>p. IndexedVector_at (evs @ [e\<lparr>parent := par\<rparr>]) (parent x) = Some p \<and>
            sint (ts p) \<le> sint (ts x) \<and> sint (ts x + dur x) \<le> sint (ts p + dur p)"
  proof (cases "x \<in> set evs")
    case True
    from inv have "\<forall>e \<in> set evs. parent e \<noteq> EventIndex (- 1) \<longrightarrow>
          (\<exists>p. IndexedVector_at evs (parent e) = Some p \<and>
               sint (ts p) \<le> sint (ts e) \<and>
               sint (ts e + dur e) \<le> sint (ts p + dur p))"
      by (simp only: containment_invariant_def)
    with True root obtain p where p: "IndexedVector_at evs (parent x) = Some p"
      "sint (ts p) \<le> sint (ts x)" "sint (ts x + dur x) \<le> sint (ts p + dur p)"
      by blast
    from IndexedVector_at_extend [OF p(1)] p(2,3) show ?thesis
      by blast
  next
    case False
    with x have xe: "x = e\<lparr>parent := par\<rparr>"
      by simp
    then have px: "parent x = par" and tx: "ts x = ts e" and dx: "dur x = dur e"
      by simp_all
    from root px par obtain p where p: "IndexedVector_at evs par = Some p" "interval_contains p e"
      by blast
    from p(2) have "sint (ts p) \<le> sint (ts e)" "sint (ts e + dur e) \<le> sint (ts p + dur p)"
      by (simp_all only: interval_contains_def)
    with IndexedVector_at_extend [OF p(1)] show ?thesis
      unfolding px tx dx by blast
  qed
qed

lemma containment_invariant_add_record:
  assumes "containment_invariant (fst st)"
  shows "containment_invariant (fst (add_record r st))"
proof -
  obtain evs nms stack where st: "st = (evs, nms, stack)"
    by (cases st)
  obtain d nms' where d: "(case rec_name r of None \<Rightarrow> (detailIndex BuildEvent_init, nms)
                           | Some s \<Rightarrow> intern s nms) = (d, nms')"
    by (cases "case rec_name r of None \<Rightarrow> (detailIndex BuildEvent_init, nms)
                           | Some s \<Rightarrow> intern s nms")
  define e where "e = BuildEvent_init\<lparr>type := rec_kind r, ts := rec_ts r, dur := rec_dur r,
                                        detailIndex := d\<rparr>"
  define stack' where "stack' = pop_until_contained evs e stack"
  define par where "par = (case stack' of [] \<Rightarrow> EventIndex (- 1) | t # _ \<Rightarrow> t)"
  have res: "fst (add_record r st) =
      add_child par (EventIndex (int (length evs))) (evs @ [e\<lparr>parent := par\<rparr>])"
    by (simp add: add_record_def st d Let_def append_event_def e_def stack'_def par_def)
  have "par = EventIndex (- 1) \<or>
        (\<exists>p. IndexedVector_at evs par = Some p \<and> interval_contains p e)"
  proof (cases stack')
    case Nil
    then show ?thesis by (simp add: par_def)
  next
    case (Cons t rest)
    then have "pop_until_contained evs e stack = t # rest"
      by (simp add: stack'_def)
    from pop_until_contained_top [OF this] Cons show ?thesis
      by (simp add: par_def)
  qed
  with assms show ?thesis
    unfolding res containment_invariant_add_child
    by (intro containment_invariant_append) (simp_all add: st)
qed

lemma containment_invariant_fold_add_record:
  "containment_invariant (fst st) \<Longrightarrow> containment_invariant (fst (fold add_record recs st))"
  by (induction recs arbitrary: st) (simp_all add: containment_invariant_add_record)

lemma containment_invariant_ParseBuildEvents_records:
  assumes "containment_invariant evs"
  shows "containment_invariant (fst (ParseBuildEvents_records recs evs nms))"
proof -
  have "fst (ParseBuildEvents_records recs evs nms) =
        fst (fold add_record (order_records recs) (evs, nms, []))"
    by (simp add: ParseBuildEvents_records_def split: prod.splits)
  with containment_invariant_fold_add_record [of "(evs, nms, [])" "order_records recs"] assms
  show ?thesis
    by simp
qed

lemma containment_invariant_analyze_file:
  assumes "containment_invariant (events st)"
  shows "containment_invariant (events (analyze_file env (ParseBuildEvents_model decode) file st))"
proof -
  let ?str = "ReadFileToString env file"
  have "containment_invariant (fst (ParseBuildEvents_model decode file ?str (events st) (names st)))"
    unfolding ParseBuildEvents_model_def
    by (rule containment_invariant_ParseBuildEvents_records [OF assms])
  with assms show ?thesis
    by (auto simp: analyze_file_def Let_def split: prod.splits)
qed

lemma containment_invariant_analyze_files:
  "containment_invariant (events st) \<Longrightarrow>
   containment_invariant (events (analyze_files env (ParseBuildEvents_model decode) fs st))"
  unfolding analyze_files_def
  by (induction fs arbitrary: st) (simp_all add: containment_invariant_analyze_file)

text \<open>The loop on the two example files.\<close>

lemma example_loop:
  "analyze_files example_env (ParseBuildEvents_model example_decode)
     [''build/a.json'', ''build/b.json''] \<lparr>events = [], names = [], printed = []\<rparr> =
   \<lparr>events =
      [\<lparr>type = kFrontend, ts = 0, dur = 100, detailIndex = DetailIndex 0,
        parent = EventIndex (- 1), children = [EventIndex 1]\<rparr>,
       \<lparr>type = kInstantiateFunction, ts = 10, dur = 20, detailIndex = DetailIndex 0,
        parent = EventIndex 0, children = []\<rparr>],
    names = [(''foo'', DetailIndex 0)],
    printed = []\<rparr>"
  by code_simp

text \<open>
  Claim C2 (containment invariant). When the loop of \<open>RunAnalyze\<close> has parsed the files
  \<open>fs\<close> into the store, starting from the empty store, every event \<open>e\<close> whose parent
  handle is not the sentinel \<open>-1\<close> has its parent \<open>p\<close> in the store, with
  \<open>p.ts \<le> e.ts\<close> and \<open>e.ts + e.dur \<le> p.ts + p.dur\<close>. The sums are those of
  \<open>int64_t\<close>; where neither sum leaves the range of \<open>int64_t\<close>, the inequality holds
  between the exact sums as well. The decoder of the JSON text is arbitrary.
\<close>

theorem containment_after_parsing:
  assumes "st = analyze_files env (ParseBuildEvents_model decode) fs
                  \<lparr>events = [], names = [], printed = msgs\<rparr>"
    and "e \<in> set (events st)"
    and "parent e \<noteq> EventIndex (- 1)"
  shows "\<exists>p. IndexedVector_at (events st) (parent e) = Some p \<and>
             sint (ts p) \<le> sint (ts e) \<and>
             sint (ts e + dur e) \<le> sint (ts p + dur p) \<and>
             (- (2 ^ 63) \<le> sint (ts e) + sint (dur e) \<and> sint (ts e) + sint (dur e) < 2 ^ 63 \<and>
              - (2 ^ 63) \<le> sint (ts p) + sint (dur p) \<and> sint (ts p) + sint (dur p) < 2 ^ 63 \<longrightarrow>
                sint (ts e) + sint (dur e) \<le> sint (ts p) + sint (dur p))"
proof -
  have "containment_invariant (events \<lparr>events = [], names = [], printed = msgs\<rparr>)"
    by (simp add: containment_invariant_def)
  then have "containment_invariant (events st)"
    unfolding assms(1) by (rule containment_invariant_analyze_files)
  with assms(2,3) obtain p where p: "IndexedVector_at (events st) (parent e) = Some p"
    "sint (ts p) \<le> sint (ts e)" "sint (ts e + dur e) \<le> sint (ts p + dur p)"
    unfolding containment_invariant_def by blast
  have "sint (ts e) + sint (dur e) \<le> sint (ts p) + sint (dur p)"
    if "- (2 ^ 63) \<le> sint (ts e) + sint (dur e)" "sint (ts e) + sint (dur e) < 2 ^ 63"
      "- (2 ^ 63) \<le> sint (ts p) + sint (dur p)" "sint (ts p) + sint (dur p) < 2 ^ 63"
    using p(3) sint_add_in_range [OF that(1,2)] sint_add_in_range [OF that(3,4)] by simp
  with p show ?thesis
    by blast
qed

theorem containment_after_parsing_witness:
  "events (analyze_files example_env (ParseBuildEvents_model example_decode)
             [''build/a.json'', ''build/b.json''] \<lparr>events = [], names = [], printed = []\<rparr>) ! 1 =
     \<lparr>type = kInstantiateFunction, ts = 10, dur = 20, detailIndex = DetailIndex 0,
      parent = EventIndex 0, children = []\<rparr> \<and>
   (\<exists>p. IndexedVector_at
          (events (analyze_files example_env (ParseBuildEvents_model example_decode)
                     [''build/a.json'', ''build/b.json'']
                     \<lparr>events = [], names = [], printed = []\<rparr>))
          (EventIndex 0) = Some p \<and>
        sint (ts p) \<le> 10 \<and> (30 :: int) \<le> sint (ts p + dur p))"
proof -
  let ?st = "analyze_files example_env (ParseBuildEvents_model example_decode)
               [''build/a.json'', ''build/b.json''] \<lparr>events = [], names = [], printed = []\<rparr>"
  let ?e = "\<lparr>type = kInstantiateFunction, ts = 10, dur = 20, detailIndex = DetailIndex 0,
             parent = EventIndex 0, children = []\<rparr>"
  have n: "events ?st ! 1 = ?e"
    by (simp add: example_loop)
  have m: "?e \<in> set (events ?st)"
    by (simp add: example_loop)
  have r: "parent ?e \<noteq> EventIndex (- 1)"
    by simp
  from containment_after_parsing [OF refl m r]
  obtain p where "IndexedVector_at (events ?st) (parent ?e) = Some p"
    "sint (ts p) \<le> sint (ts ?e)" "sint (ts ?e + dur ?e) \<le> sint (ts p + dur p)"
    by blast
  then have "IndexedVector_at (events ?st) (EventIndex 0) = Some p \<and>
             sint (ts p) \<le> 10 \<and> (30 :: int) \<le> sint (ts p + dur p)"
    by simp
  with n show ?thesis
    by blast
qed

subsection \<open>Aggregation\<close>

lemma fold_add_to_totals:
  "fold add_to_totals evs m k =
     (if [e \<leftarrow> evs. (type e, detailIndex e) = k] = [] then m k
      else Some (fst (case m k of None \<Rightarrow> (0, 0) | Some p \<Rightarrow> p) +
                   sum_list (map dur [e \<leftarrow> evs. (type e, detailIndex e) = k]),
                 snd (case m k of None \<Rightarrow> (0, 0) | Some p \<Rightarrow> p) +
                   length [e \<leftarrow> evs. (type e, detailIndex e) = k]))"
proof (induction evs arbitrary: m)
  case Nil
  then show ?case by simp
next
  case (Cons e evs)
  show ?case
  proof (cases "(type e, detailIndex e) = k")
    case True
    then have "add_to_totals e m k =
        Some (fst (case m k of None \<Rightarrow> (0, 0) | Some p \<Rightarrow> p) + dur e,
              snd (case m k of None \<Rightarrow> (0, 0) | Some p \<Rightarrow> p) + 1)"
      by (auto simp: add_to_totals_def split: option.splits)
    with True show ?thesis
      by (simp add: Cons.IH add.assoc)
  next
    case False
    then have "add_to_totals e m k = m k"
      by (auto simp: add_to_totals_def split: option.splits)
    with False show ?thesis
      by (simp add: Cons.IH)
  qed
qed

text \<open>
  Claim C6 (aggregation additivity). For every pair of a kind and a detail handle that
  occurs among the events, the entry of the totals is the sum of the durations of the
  events with that pair (a sum of \<open>int64_t\<close>), together with their number; a pair that
  does not occur has no entry. In particular, two translation units, each with one \<open>InstantiateFunction\<close>
  event named "foo", of durations 100 and 250, give the total 350 with count 2 for
  \<open>InstantiateFunction\<close> and the handle of "foo".
\<close>

theorem aggregation_additivity:
  "aggregate evs (k, d) =
     (if \<exists>e \<in> set evs. type e = k \<and> detailIndex e = d
      then Some (sum_list (map dur [e \<leftarrow> evs. type e = k \<and> detailIndex e = d]),
                 length [e \<leftarrow> evs. type e = k \<and> detailIndex e = d])
      else None) \<and>
   (case ParseBuildEvents_records
           [\<lparr>rec_kind = kInstantiateFunction, rec_ts = 0, rec_dur = 100, rec_name = Some ''foo''\<rparr>]
           [] [] of
      (evs1, nms1) \<Rightarrow>
        (case ParseBuildEvents_records
                [\<lparr>rec_kind = kInstantiateFunction, rec_ts = 0, rec_dur = 250, rec_name = Some ''foo''\<rparr>]
                evs1 nms1 of
           (evs2, nms2) \<Rightarrow>
             resolve nms2 (fst (intern ''foo'' nms2)) = Some ''foo'' \<and>
             aggregate evs2 (kInstantiateFunction, fst (intern ''foo'' nms2)) = Some (350, 2)))"
proof
  have f: "[e \<leftarrow> evs. (type e, detailIndex e) = (k, d)] = [e \<leftarrow> evs. type e = k \<and> detailIndex e = d]"
    by simp
  have "([e \<leftarrow> evs. type e = k \<and> detailIndex e = d] = []) = (\<not> (\<exists>e \<in> set evs. type e = k \<and> detailIndex e = d))"
    by (simp add: filter_empty_conv)
  then show "aggregate evs (k, d) =
     (if \<exists>e \<in> set evs. type e = k \<and> detailIndex e = d
      then Some (sum_list (map dur [e \<leftarrow> evs. type e = k \<and> detailIndex e = d]),
                 length [e \<leftarrow> evs. type e = k \<and> detailIndex e = d])
      else None)"
    unfolding aggregate_def fold_add_to_totals f by simp
next
  show "case ParseBuildEvents_records
           [\<lparr>rec_kind = kInstantiateFunction, rec_ts = 0, rec_dur = 100, rec_name = Some ''foo''\<rparr>]
           [] [] of
      (evs1, nms1) \<Rightarrow>
        (case ParseBuildEvents_records
                [\<lparr>rec_kind = kInstantiateFunction, rec_ts = 0, rec_dur = 250, rec_name = Some ''foo''\<rparr>]
                evs1 nms1 of
           (evs2, nms2) \<Rightarrow>
             resolve nms2 (fst (intern ''foo'' nms2)) = Some ''foo'' \<and>
             aggregate evs2 (kInstantiateFunction, fst (intern ''foo'' nms2)) = Some (350, 2))"
    by code_simp
qed

theorem aggregation_additivity_witness:
  "aggregate
     [BuildEvent_init\<lparr>type := kParseFile, dur := 7, detailIndex := DetailIndex 3\<rparr>,
      BuildEvent_init\<lparr>type := kParseClass, dur := 5, detailIndex := DetailIndex 3\<rparr>,
      BuildEvent_init\<lparr>type := kParseFile, dur := 30, detailIndex := DetailIndex 3\<rparr>]
     (kParseFile, DetailIndex 3) = Some (37, 2)"
  using aggregation_additivity
    [of "[BuildEvent_init\<lparr>type := kParseFile, dur := 7, detailIndex := DetailIndex 3\<rparr>,
          BuildEvent_init\<lparr>type := kParseClass, dur := 5, detailIndex := DetailIndex 3\<rparr>,
          BuildEvent_init\<lparr>type := kParseFile, dur := 30, detailIndex := DetailIndex 3\<rparr>]"
        kParseFile "DetailIndex 3", THEN conjunct1]
  by (simp add: BuildEvent_init_def)

section \<open>Selection of the trace files\<close>

text \<open>
  Claim C10 (trace-file selection filter). \<open>OnFile\<close> inserts the path of an entry into
  \<open>files\<close> exactly when the extension is ".json", the modification time can be read,
  and it lies between \<open>startTime\<close> and \<open>endTime\<close>, both included; the inserted path is
  the entry's path with every backslash replaced by a slash; in any other case the
  finder is returned as it was.
\<close>

theorem OnFile_selection_filter:
  "OnFile env f self =
     (if ext f = Some ''.json'' \<and>
         (\<exists>t. file_time env (path f) = Some t \<and>
              sint (startTime self) \<le> sint t \<and> sint t \<le> sint (endTime self))
      then self\<lparr>files :=
             insert (map (\<lambda>c. if c = CHR 0x5C then CHR ''/'' else c) (path f)) (files self)\<rparr>
      else self)"
  by (auto simp: OnFile_def std_replace_def split: option.splits)

lemma OnFile_accepts:
  "OnFile env f self =
     (if accepts env self f
      then self\<lparr>files := insert (std_replace (CHR 0x5C) CHR ''/'' (path f)) (files self)\<rparr>
      else self)"
  by (auto simp: OnFile_def accepts_def split: option.splits)

lemma accepts_files_update [simp]: "accepts env (self\<lparr>files := F\<rparr>) f = accepts env self f"
  by (simp add: accepts_def)

lemma fold_OnFile:
  "fold (OnFile env) fs self =
     self\<lparr>files := files self \<union>
        (\<lambda>f. std_replace (CHR 0x5C) CHR ''/'' (path f)) ` {f \<in> set fs. accepts env self f}\<rparr>"
proof (induction fs arbitrary: self)
  case Nil
  then show ?case by simp
next
  case (Cons f fs)
  have step: "fold (OnFile env) (f # fs) self = fold (OnFile env) fs (OnFile env f self)"
    by simp
  show ?case
  proof (cases "accepts env self f")
    case True
    then have o: "OnFile env f self =
        self\<lparr>files := insert (std_replace (CHR 0x5C) CHR ''/'' (path f)) (files self)\<rparr>"
      by (simp add: OnFile_accepts)
    have "insert (std_replace (CHR 0x5C) CHR ''/'' (path f)) (files self) \<union>
            (\<lambda>f. std_replace (CHR 0x5C) CHR ''/'' (path f)) ` {g \<in> set fs. accepts env self g} =
          files self \<union>
            (\<lambda>f. std_replace (CHR 0x5C) CHR ''/'' (path f)) ` {g \<in> set (f # fs). accepts env self g}"
      using True by auto
    then show ?thesis
      unfolding step o Cons.IH by simp
  next
    case False
    then have o: "OnFile env f self = self"
      by (simp add: OnFile_accepts)
    have "{g \<in> set (f # fs). accepts env self g} = {g \<in> set fs. accepts env self g}"
      using False by auto
    then show ?thesis
      unfolding step o Cons.IH by simp
  qed
qed

lemma cf_traverse_order:
  assumes "set (traverse env1 d) = set (traverse env2 d)"
    and "file_time env1 = file_time env2"
  shows "cf_traverse env1 d self = cf_traverse env2 d self"
  using assms by (simp add: cf_traverse_def fold_OnFile accepts_def)

text \<open>
  The order of the directory listing. The candidate files are kept in a set that is
  iterated in ascending order of the paths. So two runs that differ only in the order in
  which the file system lists the same entries process the files in the same order and
  give the same result: the same status, the same messages and the same input to the
  analysis. This is the part of claim C5 that \<open>main.cpp\<close> decides; whether the totals
  depend on the order in which the documents are processed is a matter of the parser and
  the aggregator, and is not settled here.
\<close>

lemma RunAnalyze_order_independent:
  assumes "\<forall>d. set (order2 d) = set (traverse env d)"
  shows "RunAnalyze (env\<lparr>traverse := order2\<rparr>) ParseBuildEvents DoAnalysis argv =
         RunAnalyze env ParseBuildEvents DoAnalysis argv"
proof -
  let ?env2 = "env\<lparr>traverse := order2\<rparr>"
  have t: "cf_traverse ?env2 d self = cf_traverse env d self" for d self
    by (rule cf_traverse_order) (use assms in simp_all)
  have f: "analyze_file ?env2 = analyze_file env"
    by (intro ext) (simp add: analyze_file_def ReadFileToString_def)
  have s: "ReadSessionFile ?env2 = ReadSessionFile env"
    by (intro ext) (simp add: ReadSessionFile_def)
  have n: "now ?env2 = now env"
    by simp
  show ?thesis
    unfolding RunAnalyze_def analyze_files_def t f s n ..
qed

lemma RunAnalyze_order_independent_example:
  "RunAnalyze (example_env\<lparr>traverse := (\<lambda>d. if d = ''build'' then rev example_entries else [])\<rparr>)
     (ParseBuildEvents_model example_decode) example_analysis example_argv =
   RunAnalyze example_env (ParseBuildEvents_model example_decode) example_analysis example_argv"
  by (rule RunAnalyze_order_independent) (simp add: example_env_def)

section \<open>The loop of RunAnalyze\<close>

subsection \<open>strstr\<close>

lemma is_prefix_iff: "is_prefix needle hay \<longleftrightarrow> (\<exists>post. hay = needle @ post)"
  by (induction needle hay rule: is_prefix.induct) auto

lemma strstr_iff: "strstr hay needle \<longleftrightarrow> (\<exists>pre post. hay = pre @ needle @ post)"
proof (induction hay)
  case Nil
  then show ?case by (simp add: is_prefix_iff)
next
  case (Cons h hs)
  show ?case
  proof
    assume "strstr (h # hs) needle"
    then consider "is_prefix needle (h # hs)" | "strstr hs needle"
      by auto
    then show "\<exists>pre post. h # hs = pre @ needle @ post"
    proof cases
      case 1
      then obtain post where "h # hs = [] @ needle @ post"
        by (auto simp: is_prefix_iff)
      then show ?thesis by blast
    next
      case 2
      then obtain pre post where "hs = pre @ needle @ post"
        using Cons.IH by blast
      then have "h # hs = (h # pre) @ needle @ post"
        by simp
      then show ?thesis by blast
    qed
  next
    assume "\<exists>pre post. h # hs = pre @ needle @ post"
    then obtain pre post where e: "h # hs = pre @ needle @ post"
      by blast
    show "strstr (h # hs) needle"
    proof (cases pre)
      case Nil
      with e have "is_prefix needle (h # hs)"
        by (simp add: is_prefix_iff)
      then show ?thesis by simp
    next
      case (Cons p pre')
      with e have "hs = pre' @ needle @ post"
        by simp
      then have "strstr hs needle"
        using Cons.IH by blast
      then show ?thesis by simp
    qed
  qed
qed

lemma marker_absent:
  assumes "\<nexists>pre post. str = pre @ clangMarker @ post"
  shows "\<not> strstr (c_str str) clangMarker"
proof
  assume "strstr (c_str str) clangMarker"
  then obtain pre post where "c_str str = pre @ clangMarker @ post"
    by (auto simp: strstr_iff)
  moreover have "str = c_str str @ dropWhile (\<lambda>c. c \<noteq> CHR 0x00) str"
    by (simp add: c_str_def)
  ultimately have "str = pre @ clangMarker @ (post @ dropWhile (\<lambda>c. c \<noteq> CHR 0x00) str)"
    by simp
  with assms show False
    by blast
qed

subsection \<open>A file without the marker\<close>

lemma analyze_file_markerless:
  assumes "\<nexists>pre post. ReadFileToString env file = pre @ clangMarker @ post"
  shows "analyze_file env P file st =
           st\<lparr>printed := printed st @
                 (if ReadFileToString env file = [] then [WarnCouldNotReadFile file] else [])\<rparr>"
  using marker_absent [OF assms] by (simp add: analyze_file_def Let_def)

lemma analyze_files_Cons:
  "analyze_files env P (file # rest) st = analyze_files env P rest (analyze_file env P file st)"
  by (simp add: analyze_files_def)

lemma analyze_files_markerless:
  assumes "\<forall>file \<in> set fs. \<nexists>pre post. ReadFileToString env file = pre @ clangMarker @ post"
  shows "events (analyze_files env P fs st) = events st \<and>
         names (analyze_files env P fs st) = names st"
  using assms
proof (induction fs arbitrary: st)
  case Nil
  then show ?case by (simp add: analyze_files_def)
next
  case (Cons f fs)
  then have f: "\<nexists>pre post. ReadFileToString env f = pre @ clangMarker @ post"
    and fs: "\<forall>file \<in> set fs. \<nexists>pre post. ReadFileToString env file = pre @ clangMarker @ post"
    by simp_all
  show ?case
    unfolding analyze_files_Cons analyze_file_markerless [OF f]
    by (simp add: Cons.IH [OF fs])
qed

text \<open>
  Claim C4 (producer-marker rejection), as amended. A file whose text does not contain
  the producer marker is skipped: it adds no event and no name, and the loop goes on with
  the remaining files. Nothing is printed for it unless its text is empty (the file is
  empty or cannot be opened), in which case the warning is "could not read file".
\<close>

theorem markerless_file_is_skipped:
  assumes "\<nexists>pre post. ReadFileToString env file = pre @ clangMarker @ post"
  shows "events (analyze_file env P file st) = events st \<and>
         names (analyze_file env P file st) = names st \<and>
         printed (analyze_file env P file st) =
           printed st @ (if ReadFileToString env file = [] then [WarnCouldNotReadFile file] else []) \<and>
         analyze_files env P (file # rest) st =
           analyze_files env P rest
             (st\<lparr>printed := printed st @
                   (if ReadFileToString env file = [] then [WarnCouldNotReadFile file] else [])\<rparr>)"
  by (simp add: analyze_file_markerless [OF assms] analyze_files_Cons)

theorem markerless_file_is_skipped_witness:
  "analyze_file skipped_env (ParseBuildEvents_model example_decode) ''build/a.json''
     \<lparr>events = [], names = [], printed = []\<rparr> = \<lparr>events = [], names = [], printed = []\<rparr>"
proof -
  have "\<not> strstr ''{}'' clangMarker"
    by code_simp
  then have m: "\<nexists>pre post. ReadFileToString skipped_env ''build/a.json'' = pre @ clangMarker @ post"
    by (simp add: strstr_iff ReadFileToString_def skipped_env_def)
  have r: "ReadFileToString skipped_env ''build/a.json'' \<noteq> []"
    by (simp add: ReadFileToString_def skipped_env_def)
  from markerless_file_is_skipped [OF m, of "ParseBuildEvents_model example_decode"
      "\<lparr>events = [], names = [], printed = []\<rparr>" "[]"] r
  show ?thesis
    by (intro analyze_state.equality) simp_all
qed

text \<open>
  Claim C4 (producer-marker rejection), as stated, fails: the file of the example has a
  text, the text does not hold the marker, and neither the step of the loop nor the whole
  run prints a warning for it.
\<close>

theorem markerless_file_skipped_silently:
  "ReadFileToString skipped_env ''build/a.json'' = ''{}'' \<and>
   \<not> strstr ''{}'' clangMarker \<and>
   printed (analyze_file skipped_env (ParseBuildEvents_model example_decode) ''build/a.json''
              \<lparr>events = [], names = [], printed = []\<rparr>) = [] \<and>
   console (RunAnalyze skipped_env (ParseBuildEvents_model example_decode)
              example_analysis example_argv) = [Analyzing ''build'', DoneIn]"
  by code_simp

subsection \<open>The status of a run without events\<close>

lemma finite_files_cf_traverse:
  "finite (files self) \<Longrightarrow> finite (files (cf_traverse env d self))"
  by (simp add: cf_traverse_def fold_OnFile)

lemma RunAnalyze_loop:
  assumes "2 < length argv"
    and "session_file env (argv ! 2 @ ''/ClangBuildAnalyzerSession.txt'') = Some start"
    and "files (cf_traverse env (argv ! 2) \<lparr>startTime = start, endTime = now env, files = {}\<rparr>) = F"
    and "F \<noteq> {}"
    and "st = analyze_files env P (sorted_list_of_set F)
                \<lparr>events = [], names = [], printed = [Analyzing (argv ! 2)]\<rparr>"
  shows "RunAnalyze env P D argv =
           \<lparr>exit_code = 0, console = printed st @ [DoneIn],
            analysis = Some (D (events st) (names st))\<rparr>"
  using assms by (simp add: RunAnalyze_def ReadSessionFile_def Let_def)

text \<open>
  Claim C3 (empty input), as amended. Once a file name is given, the session file can be
  read and the set of candidate files is not empty, \<open>RunAnalyze\<close> returns 0 and has
  called the analysis on whatever the loop left in the store. In particular, when every
  candidate file lacks the producer marker, the store is empty, the analysis is called
  on the empty store, and the status is still 0.
\<close>

theorem RunAnalyze_without_events_succeeds:
  assumes "2 < length argv"
    and "session_file env (argv ! 2 @ ''/ClangBuildAnalyzerSession.txt'') = Some start"
    and "files (cf_traverse env (argv ! 2) \<lparr>startTime = start, endTime = now env, files = {}\<rparr>) = F"
    and "F \<noteq> {}"
    and "st = analyze_files env P (sorted_list_of_set F)
                \<lparr>events = [], names = [], printed = [Analyzing (argv ! 2)]\<rparr>"
  shows "exit_code (RunAnalyze env P D argv) = 0 \<and>
         analysis (RunAnalyze env P D argv) = Some (D (events st) (names st)) \<and>
         ((\<forall>file \<in> F. \<nexists>pre post. ReadFileToString env file = pre @ clangMarker @ post) \<longrightarrow>
            events st = [] \<and> analysis (RunAnalyze env P D argv) = Some (D [] []))"
proof -
  note run = RunAnalyze_loop [OF assms]
  have fin: "finite F"
    using finite_files_cf_traverse [of "\<lparr>startTime = start, endTime = now env, files = {}\<rparr>" env "argv ! 2"]
      assms(3) by simp
  have "events st = [] \<and> names st = []"
    if "\<forall>file \<in> F. \<nexists>pre post. ReadFileToString env file = pre @ clangMarker @ post"
  proof -
    from that fin have "\<forall>file \<in> set (sorted_list_of_set F).
        \<nexists>pre post. ReadFileToString env file = pre @ clangMarker @ post"
      by simp
    from analyze_files_markerless [OF this] show ?thesis
      unfolding assms(5) by simp
  qed
  then show ?thesis
    by (simp add: run)
qed

theorem RunAnalyze_without_events_succeeds_witness:
  "exit_code (RunAnalyze skipped_env (ParseBuildEvents_model example_decode)
                example_analysis example_argv) = 0 \<and>
   analysis (RunAnalyze skipped_env (ParseBuildEvents_model example_decode)
                example_analysis example_argv) = Some ([], [])"
proof -
  have a: "2 < length example_argv"
    by (simp add: example_argv_def)
  have s: "session_file skipped_env (example_argv ! 2 @ ''/ClangBuildAnalyzerSession.txt'') = Some 1000"
    by (simp add: skipped_env_def example_env_def example_argv_def)
  have f: "files (cf_traverse skipped_env (example_argv ! 2)
             \<lparr>startTime = 1000, endTime = now skipped_env, files = {}\<rparr>) =
           {''build/a.json'', ''build/b.json''}"
    by code_simp
  have n: "{''build/a.json'', ''build/b.json''} \<noteq> ({} :: string set)"
    by simp
  have m: "\<forall>file \<in> {''build/a.json'', ''build/b.json''}.
             \<nexists>pre post. ReadFileToString skipped_env file = pre @ clangMarker @ post"
  proof -
    have "\<not> strstr ''{}'' clangMarker"
      by code_simp
    then show ?thesis
      by (simp add: strstr_iff ReadFileToString_def skipped_env_def)
  qed
  note run = RunAnalyze_without_events_succeeds [OF a s f n refl,
      of "ParseBuildEvents_model example_decode" example_analysis]
  from run have e: "exit_code (RunAnalyze skipped_env (ParseBuildEvents_model example_decode)
                      example_analysis example_argv) = 0"
    by (rule conjunct1)
  from run m have "analysis (RunAnalyze skipped_env (ParseBuildEvents_model example_decode)
                     example_analysis example_argv) = Some (example_analysis [] [])"
    by blast
  moreover have "example_analysis [] [] = ([], [])"
    by (simp add: example_analysis_def)
  ultimately show ?thesis
    using e by simp
qed

text \<open>
  Claim C3 (empty input is fatal), as stated, fails: both candidate files lack the marker,
  no event is parsed, and the run returns 0 after calling the analysis on the empty store.
\<close>

theorem empty_input_is_not_fatal:
  "\<not> strstr (c_str (ReadFileToString skipped_env ''build/a.json'')) clangMarker \<and>
   \<not> strstr (c_str (ReadFileToString skipped_env ''build/b.json'')) clangMarker \<and>
   RunAnalyze skipped_env (ParseBuildEvents_model example_decode) example_analysis example_argv =
     \<lparr>exit_code = 0, console = [Analyzing ''build'', DoneIn], analysis = Some ([], [])\<rparr>"
  by code_simp

subsection \<open>The warning for a file without events\<close>

text \<open>
  The warning "no trace events found" is printed exactly when the file was parsed and
  the shared store is empty after the call.
\<close>

lemma analyze_file_warning:
  "printed (analyze_file env P file st) = printed st @ [NoTraceEventsFound] \<longleftrightarrow>
     ReadFileToString env file \<noteq> [] \<and>
     strstr (c_str (ReadFileToString env file)) clangMarker \<and>
     fst (P file (ReadFileToString env file) (events st) (names st)) = []"
  by (auto simp: analyze_file_def Let_def split: prod.splits)

text \<open>
  Claim C7 (per-file empty contribution) at an input where the code departs from it.
  Parsed first, \<open>build/b.json\<close> adds no event and the warning is printed. Parsed after
  \<open>build/a.json\<close>, which left two events in the store, it adds no event either and
  changes nothing: no warning is printed, and the whole run prints none.
\<close>

theorem warning_tests_the_shared_store:
  "analyze_file example_env (ParseBuildEvents_model example_decode) ''build/b.json''
     \<lparr>events = [], names = [], printed = []\<rparr> =
     \<lparr>events = [], names = [], printed = [NoTraceEventsFound]\<rparr> \<and>
   length (events (analyze_file example_env (ParseBuildEvents_model example_decode)
                     ''build/a.json'' \<lparr>events = [], names = [], printed = []\<rparr>)) = 2 \<and>
   analyze_file example_env (ParseBuildEvents_model example_decode) ''build/b.json''
     (analyze_file example_env (ParseBuildEvents_model example_decode) ''build/a.json''
        \<lparr>events = [], names = [], printed = []\<rparr>) =
     analyze_file example_env (ParseBuildEvents_model example_decode) ''build/a.json''
       \<lparr>events = [], names = [], printed = []\<rparr> \<and>
   console (RunAnalyze example_env (ParseBuildEvents_model example_decode)
              example_analysis example_argv) = [Analyzing ''build'', DoneIn]"
  by code_simp

section \<open>CompareIgnoreNewlines\<close>

text \<open>
  When the function returns true, the two strings are equal once their carriage returns
  are deleted; and on strings in which every carriage return is followed by another
  character, the converse holds as well. It fails on other strings.
\<close>

lemma loop_beyond_a: "length a < ia \<Longrightarrow> \<not> CompareIgnoreNewlines_loop a b ia ib"
  by (subst CompareIgnoreNewlines_loop.simps) simp

lemma loop_beyond_b: "length b < ib \<Longrightarrow> \<not> CompareIgnoreNewlines_loop a b ia ib"
  by (subst CompareIgnoreNewlines_loop.simps) simp

lemma delete_cr_drop:
  "i < length s \<Longrightarrow>
     delete_cr (drop i s) = (if s ! i = CHR 0x0D then [] else [s ! i]) @ delete_cr (drop (Suc i) s)"
  by (simp add: delete_cr_def Cons_nth_drop_Suc [symmetric])

lemma loop_sound:
  "CompareIgnoreNewlines_loop a b ia ib \<Longrightarrow> delete_cr (drop ia a) = delete_cr (drop ib b)"
proof (induction a b ia ib rule: CompareIgnoreNewlines_loop.induct)
  case (1 a b ia ib)
  show ?case
  proof (cases "ia < length a \<and> ib < length b")
    case False
    with "1.prems" have "ia = length a" "ib = length b"
      by (simp_all add: CompareIgnoreNewlines_loop.simps [of a b ia ib])
    then show ?thesis by simp
  next
    case True
    define ia1 where "ia1 = (if a ! ia = CHR 0x0D then ia + 1 else ia)"
    define ib1 where "ib1 = (if b ! ib = CHR 0x0D then ib + 1 else ib)"
    from "1.prems" True
    have ne: "\<not> (ia1 < length a \<and> ib1 < length b \<and> a ! ia1 \<noteq> b ! ib1)"
      and rec: "CompareIgnoreNewlines_loop a b (ia1 + 1) (ib1 + 1)"
      by (simp_all add: CompareIgnoreNewlines_loop.simps [of a b ia ib] ia1_def ib1_def Let_def
          split: if_splits)
    have la: "ia1 < length a"
      using rec loop_beyond_a [of a "ia1 + 1" b "ib1 + 1"] by (cases "ia1 < length a") auto
    have lb: "ib1 < length b"
      using rec loop_beyond_b [of b "ib1 + 1" a "ia1 + 1"] by (cases "ib1 < length b") auto
    from ne la lb have same: "a ! ia1 = b ! ib1"
      by simp
    have ih: "delete_cr (drop (ia1 + 1) a) = delete_cr (drop (ib1 + 1) b)"
      using "1.IH" [OF True ia1_def ib1_def _ rec] ne by blast
    have da: "delete_cr (drop ia a) = delete_cr (drop ia1 a)"
      using True by (auto simp: ia1_def delete_cr_drop [of ia a])
    have db: "delete_cr (drop ib b) = delete_cr (drop ib1 b)"
      using True by (auto simp: ib1_def delete_cr_drop [of ib b])
    show ?thesis
      unfolding da db using ih same by (simp add: delete_cr_drop [OF la] delete_cr_drop [OF lb])
  qed
qed

lemma CompareIgnoreNewlines_sound:
  "CompareIgnoreNewlines a b \<Longrightarrow> delete_cr a = delete_cr b"
  using loop_sound [of a b 0 0] by (simp add: CompareIgnoreNewlines_def)

lemma delete_cr_unit:
  assumes "cr_followed s" and "i < length s"
  defines "i1 \<equiv> (if s ! i = CHR 0x0D then i + 1 else i)"
  shows "i1 < length s \<and> s ! i1 \<noteq> CHR 0x0D \<and>
         delete_cr (drop i s) = s ! i1 # delete_cr (drop (i1 + 1) s)"
proof (cases "s ! i = CHR 0x0D")
  case True
  with assms(1,2) have n: "Suc i < length s" "s ! Suc i \<noteq> CHR 0x0D"
    by (simp_all add: cr_followed_def)
  with True assms(2) show ?thesis
    by (simp add: i1_def delete_cr_drop [of i s] delete_cr_drop [of "Suc i" s])
next
  case False
  with assms(2) show ?thesis
    by (simp add: i1_def delete_cr_drop [of i s])
qed

lemma loop_complete:
  "cr_followed a \<Longrightarrow> cr_followed b \<Longrightarrow> ia \<le> length a \<Longrightarrow> ib \<le> length b \<Longrightarrow>
   delete_cr (drop ia a) = delete_cr (drop ib b) \<Longrightarrow> CompareIgnoreNewlines_loop a b ia ib"
proof (induction a b ia ib rule: CompareIgnoreNewlines_loop.induct)
  case (1 a b ia ib)
  show ?case
  proof (cases "ia < length a \<and> ib < length b")
    case True
    define ia1 where "ia1 = (if a ! ia = CHR 0x0D then ia + 1 else ia)"
    define ib1 where "ib1 = (if b ! ib = CHR 0x0D then ib + 1 else ib)"
    from delete_cr_unit [OF "1.prems"(1), of ia] True
    have ua: "ia1 < length a" "delete_cr (drop ia a) = a ! ia1 # delete_cr (drop (ia1 + 1) a)"
      by (simp_all add: ia1_def)
    from delete_cr_unit [OF "1.prems"(2), of ib] True
    have ub: "ib1 < length b" "delete_cr (drop ib b) = b ! ib1 # delete_cr (drop (ib1 + 1) b)"
      by (simp_all add: ib1_def)
    from "1.prems"(5) ua(2) ub(2)
    have same: "a ! ia1 = b ! ib1"
      and rest: "delete_cr (drop (ia1 + 1) a) = delete_cr (drop (ib1 + 1) b)"
      by simp_all
    have "CompareIgnoreNewlines_loop a b (ia1 + 1) (ib1 + 1)"
      using "1.IH" [OF True ia1_def ib1_def _ "1.prems"(1,2) _ _ rest] same ua(1) ub(1)
      by simp
    with True same show ?thesis
      by (simp add: CompareIgnoreNewlines_loop.simps [of a b ia ib] ia1_def ib1_def Let_def)
  next
    case False
    have "ia = length a \<and> ib = length b"
    proof (rule ccontr)
      assume n: "\<not> (ia = length a \<and> ib = length b)"
      with False "1.prems"(3,4)
      consider "ia = length a" "ib < length b" | "ib = length b" "ia < length a"
        by linarith
      then show False
      proof cases
        case 1
        from delete_cr_unit [OF "1.prems"(2) 1(2)] "1.prems"(5) 1(1) show False
          by (simp add: delete_cr_def)
      next
        case 2
        from delete_cr_unit [OF "1.prems"(1) 2(2)] "1.prems"(5) 2(1) show False
          by (simp add: delete_cr_def)
      qed
    qed
    then show ?thesis
      by (subst CompareIgnoreNewlines_loop.simps) simp
  qed
qed

lemma CompareIgnoreNewlines_crlf:
  assumes "cr_followed a" and "cr_followed b"
  shows "CompareIgnoreNewlines a b \<longleftrightarrow> delete_cr a = delete_cr b"
  using loop_complete [OF assms, of 0 0] CompareIgnoreNewlines_sound [of a b]
  by (auto simp: CompareIgnoreNewlines_def)

text \<open>
  Claim C9 (comparison modulo carriage returns) at inputs where the code departs from
  it: a carriage return at the end of a string, or two in a row, make the function
  return false for strings that are equal once the carriage returns are deleted, and
  even for a string compared with itself. On CR LF against LF it returns true.
\<close>

theorem CompareIgnoreNewlines_misses_carriage_returns:
  "delete_cr [CHR ''x'', CHR 0x0D] = delete_cr [CHR ''x''] \<and>
   \<not> CompareIgnoreNewlines [CHR ''x'', CHR 0x0D] [CHR ''x''] \<and>
   \<not> CompareIgnoreNewlines [CHR 0x0D] [CHR 0x0D] \<and>
   delete_cr [CHR 0x0D, CHR 0x0D, CHR 0x0A] = delete_cr [CHR 0x0A] \<and>
   \<not> CompareIgnoreNewlines [CHR 0x0D, CHR 0x0D, CHR 0x0A] [CHR 0x0A] \<and>
   CompareIgnoreNewlines [CHR ''x'', CHR 0x0D, CHR 0x0A] [CHR ''x'', CHR 0x0A]"
  by code_simp

end
